theory Spec2Isabelle
  imports Complex_Main
begin

section \<open>Strings\<close>

text \<open>
  A JavaScript string is a sequence of UTF-16 code units and \<open>length\<close> counts them.
  A \<^typ>\<open>char\<close> stands for one code unit below 256 here, and \<^typ>\<open>string\<close> for the
  strings over them.

  JavaScript numbers are IEEE doubles. The model computes with exact rationals: every
  finite double is a rational, and a product, quotient or sum of the model is the
  unrounded value of what the code computes. The two can fall on different sides of a
  test (at font size 26 the code computes 59 characters per line, the model 60), so a
  concrete page break of the model is the code's only where rounding does not decide it.
  Negative zero, NaN and the infinities are not values of the model, but for the quotient
  \<open>Infinity\<close> of the division that computes \<open>charsPerLine\<close> at font size 0, which is a
  value of its own (type \<open>limit\<close>).
\<close>

definition nl :: string where
  "nl = [CHR 0x0A]"

definition sp :: string where
  "sp = [CHR 0x20]"

text \<open>\<open>String.prototype.split\<close> with a one-character separator: never an empty array.\<close>

fun split :: "char \<Rightarrow> string \<Rightarrow> string list" where
  "split sep [] = [[]]"
| "split sep (c # cs) =
     (if c = sep then [] # split sep cs
      else (case split sep cs of
              [] \<Rightarrow> [[c]]
            | w # ws \<Rightarrow> (c # w) # ws))"

text \<open>\<open>Array.prototype.join\<close>: the empty array joins to the empty string.\<close>

fun join :: "string \<Rightarrow> string list \<Rightarrow> string" where
  "join sep [] = []"
| "join sep [x] = x"
| "join sep (x # y # ys) = x @ sep @ join sep (y # ys)"

text \<open>
  The white space of \<open>String.prototype.trim\<close> and of the regular expression class
  \<open>\s\<close> (the same set), as far as it lies below 256: TAB, LF, VT, FF, CR, SPACE, NBSP.
\<close>

definition is_space :: "char \<Rightarrow> bool" where
  "is_space c \<longleftrightarrow>
     c = CHR 0x09 \<or> c = CHR 0x0A \<or> c = CHR 0x0B \<or> c = CHR 0x0C \<or> c = CHR 0x0D \<or>
     c = CHR 0x20 \<or> c = CHR 0xA0"

definition trim :: "string \<Rightarrow> string" where
  "trim s = rev (dropWhile is_space (rev (dropWhile is_space s)))"

definition startsWith :: "string \<Rightarrow> string \<Rightarrow> bool" where
  "startsWith s p \<longleftrightarrow> take (length p) s = p"

text \<open>\<open>line.trim().startsWith('|')\<close>, the test of the table detection.\<close>

definition is_table_row :: "string \<Rightarrow> bool" where
  "is_table_row line \<longleftrightarrow> startsWith (trim line) ''|''"

text \<open>
  \<open>/^---$/.test(t) || /^___$/.test(t) || /^\*\*\*$/.test(t)\<close> on the trimmed line: each
  pattern is anchored at both ends and has exactly three characters.
\<close>

definition is_hr :: "string \<Rightarrow> bool" where
  "is_hr line \<longleftrightarrow> trim line = ''---'' \<or> trim line = ''___'' \<or> trim line = ''***''"

text \<open>\<open>/^#{1,6}\s/.test(line)\<close>: one to six \<open>#\<close>, then a white-space character.\<close>

definition isHeader :: "string \<Rightarrow> bool" where
  "isHeader line \<longleftrightarrow>
     (let n = length (takeWhile (\<lambda>c. c = CHR ''#'') line)
      in 1 \<le> n \<and> n \<le> 6 \<and> (case drop n line of [] \<Rightarrow> False | c # _ \<Rightarrow> is_space c))"

section \<open>Block segmentation\<close>

datatype block_type = Text | Table | Hr

record block =
  type :: block_type
  content :: "string list"

function segment :: "string list \<Rightarrow> block list" where
  "segment [] = []"
| "segment (line # rest) =
     (if is_table_row line then
        \<lparr>type = Table, content = line # takeWhile is_table_row rest\<rparr>
          # segment (dropWhile is_table_row rest)
      else if is_hr line then \<lparr>type = Hr, content = [line]\<rparr> # segment rest
      else \<lparr>type = Text, content = [line]\<rparr> # segment rest)"
  by pat_completeness auto
termination
  by (relation "measure length") (auto simp: length_dropWhile_le less_Suc_eq_le)

section \<open>Text wrapping\<close>

text \<open>
  The value of \<open>Math.floor(USABLE_WIDTH / avgCharWidth)\<close>: an integer, or \<open>Infinity\<close>
  when the divisor is zero.
\<close>

datatype limit = Finite int | Infinity

fun le_limit :: "nat \<Rightarrow> limit \<Rightarrow> bool" where
  "le_limit n (Finite m) = (int n \<le> m)"
| "le_limit n Infinity = True"

text \<open>The \<open>for\<close> loop of \<open>wrapText\<close> over \<open>words[1..]\<close>, with its two variables.\<close>

fun wrapLoop :: "limit \<Rightarrow> string list \<Rightarrow> string list \<Rightarrow> string \<Rightarrow> string list \<times> string" where
  "wrapLoop max' [] wrapped current = (wrapped, current)"
| "wrapLoop max' (word # ws) wrapped current =
     (if le_limit (length current + 1 + length word) max'
      then wrapLoop max' ws wrapped (current @ sp @ word)
      else wrapLoop max' ws (wrapped @ [current]) word)"

definition wrapText :: "string \<Rightarrow> limit \<Rightarrow> string list" where
  "wrapText str max' =
     (if le_limit (length str) max' then [str]
      else
        (let words = split CHR 0x20 str;
             current = (case words of [] \<Rightarrow> [] | w # _ \<Rightarrow> w);
             (wrapped, current') = wrapLoop max' (drop 1 words) [] current
         in wrapped @ [current']))"

section \<open>Page assembly\<close>

definition AVAILABLE_HEIGHT :: rat where
  "AVAILABLE_HEIGHT = 1123 - 96"

definition USABLE_WIDTH :: rat where
  "USABLE_WIDTH = 794 - 92"

definition avgCharWidth :: "rat \<Rightarrow> rat" where
  "avgCharWidth fontSize = fontSize * (45 / 100)"

definition charsPerLine :: "rat \<Rightarrow> limit" where
  "charsPerLine fontSize =
     (if avgCharWidth fontSize = 0 then Infinity
      else Finite \<lfloor>USABLE_WIDTH / avgCharWidth fontSize\<rfloor>)"

definition getLineHeight :: "rat \<Rightarrow> bool \<Rightarrow> bool \<Rightarrow> bool \<Rightarrow> rat" where
  "getLineHeight pxPerLine isHeader' isTable isHr =
     (if isTable then pxPerLine * 1
      else if isHr then pxPerLine * (1 / 2)
      else if isHeader' then pxPerLine * (3 / 2)
      else pxPerLine)"

text \<open>The three variables that \<open>pushPage\<close> and the block loop share.\<close>

record pstate =
  pages :: "string list"
  currentPageLines :: "string list"
  currentHeightUsed :: rat

definition pushPage :: "pstate \<Rightarrow> pstate" where
  "pushPage st =
     \<lparr>pages = pages st @
        [if length (currentPageLines st) > 0 then join nl (currentPageLines st) else []],
      currentPageLines = [],
      currentHeightUsed = 0\<rparr>"

text \<open>\<open>currentPageLines.push(...ls); currentHeightUsed += h\<close>.\<close>

definition pushLines :: "string list \<Rightarrow> rat \<Rightarrow> pstate \<Rightarrow> pstate" where
  "pushLines ls h st =
     st\<lparr>currentPageLines := currentPageLines st @ ls,
        currentHeightUsed := currentHeightUsed st + h\<rparr>"

text \<open>The row loop of a table that is split; \<open>r\<close> is the index of the first row left.\<close>

fun tableRows :: "rat \<Rightarrow> string list \<Rightarrow> nat \<Rightarrow> string list \<Rightarrow> pstate \<Rightarrow> pstate" where
  "tableRows pxPerLine headers r [] st = st"
| "tableRows pxPerLine headers r (row # rows) st =
     (let isHeaderRow = r < 2;
          st1 = (if currentHeightUsed st + pxPerLine > AVAILABLE_HEIGHT then
                   (let st' = pushPage st
                    in if \<not> isHeaderRow \<and> length headers = 2
                       then pushLines headers (of_nat (length headers) * pxPerLine) st'
                       else st')
                 else st)
      in tableRows pxPerLine headers (r + 1) rows (pushLines [row] pxPerLine st1))"

text \<open>One atomic unit: seal the page if the unit overflows it, then place the unit.\<close>

definition placeUnit :: "string \<Rightarrow> rat \<Rightarrow> pstate \<Rightarrow> pstate" where
  "placeUnit line h st =
     pushLines [line] h
       (if currentHeightUsed st + h > AVAILABLE_HEIGHT then pushPage st else st)"

fun placeVisualLines :: "rat \<Rightarrow> string list \<Rightarrow> pstate \<Rightarrow> pstate" where
  "placeVisualLines pxPerLine [] st = st"
| "placeVisualLines pxPerLine (vLine # vs) st =
     placeVisualLines pxPerLine vs (placeUnit vLine pxPerLine st)"

text \<open>
  The body of the loop over the blocks. Segmentation never builds a block without lines
  (lemma \<open>segment_content\<close>), so \<open>block.content[0]\<close> is always there; the model leaves
  the state alone for an empty non-table block.
\<close>

definition processBlock :: "rat \<Rightarrow> limit \<Rightarrow> pstate \<Rightarrow> block \<Rightarrow> pstate" where
  "processBlock pxPerLine maxChars st b =
     (case type b of
        Table \<Rightarrow>
          (let headers = take 2 (content b);
               tableHeight = of_nat (length (content b)) * getLineHeight pxPerLine False True False
           in if currentHeightUsed st + tableHeight \<le> AVAILABLE_HEIGHT then
                pushLines (content b) tableHeight
                  (if length (currentPageLines st) > 0 then pushLines [[]] pxPerLine st else st)
              else
                tableRows pxPerLine headers 0 (content b)
                  (if length (currentPageLines st) > 0 \<and> currentHeightUsed st > 0
                   then pushLines [[]] pxPerLine st else st))
      | Hr \<Rightarrow>
          (case content b of
             [] \<Rightarrow> st
           | line # _ \<Rightarrow> placeUnit line (getLineHeight pxPerLine False False True) st)
      | Text \<Rightarrow>
          (case content b of
             [] \<Rightarrow> st
           | line # _ \<Rightarrow>
               if isHeader line then placeUnit line (getLineHeight pxPerLine True False False) st
               else placeVisualLines pxPerLine (wrapText line maxChars) st))"

definition paginateText :: "string \<Rightarrow> rat \<Rightarrow> rat \<Rightarrow> string list" where
  "paginateText text fontSize lineHeight =
     (if text = [] then [[]]
      else
        (let pxPerLine = fontSize * lineHeight;
             blocks = segment (split CHR 0x0A text);
             st = foldl (processBlock pxPerLine (charsPerLine fontSize))
                    \<lparr>pages = [], currentPageLines = [], currentHeightUsed = 0\<rparr> blocks;
             pages' = (if length (currentPageLines st) > 0
                       then pages st @ [join nl (currentPageLines st)] else pages st)
         in if length pages' > 0 then pages' else [[]]))"

text \<open>
  The first atomic unit of a block (its first table row, the rule, the heading, or the
  first visual line), the height the page assembly gives it, and what the assembly does
  with the rest of the block once that unit has been placed.
\<close>

definition unitLine :: "limit \<Rightarrow> block \<Rightarrow> string" where
  "unitLine maxChars b =
     (case type b of
        Text \<Rightarrow> if isHeader (hd (content b)) then hd (content b)
                else hd (wrapText (hd (content b)) maxChars)
      | _ \<Rightarrow> hd (content b))"

definition unitHeight :: "rat \<Rightarrow> block \<Rightarrow> rat" where
  "unitHeight pxPerLine b =
     (case type b of
        Table \<Rightarrow> pxPerLine
      | Hr \<Rightarrow> getLineHeight pxPerLine False False True
      | Text \<Rightarrow> if isHeader (hd (content b)) then getLineHeight pxPerLine True False False
                else pxPerLine)"

definition restOfBlock :: "rat \<Rightarrow> limit \<Rightarrow> block \<Rightarrow> pstate \<Rightarrow> pstate" where
  "restOfBlock pxPerLine maxChars b st =
     (case type b of
        Table \<Rightarrow> tableRows pxPerLine (take 2 (content b)) 1 (tl (content b)) st
      | Hr \<Rightarrow> st
      | Text \<Rightarrow> if isHeader (hd (content b)) then st
                else placeVisualLines pxPerLine (tl (wrapText (hd (content b)) maxChars)) st)"

section \<open>Page assembly with provenance\<close>

text \<open>
  The same page assembly once more, with every line that is placed on a page labelled by
  where it comes from, and every sealed page kept as its lines together with the height
  that had been accumulated when it was sealed. The labels and the recorded heights are
  never read by the control flow; lemma \<open>paginateText_trace\<close> shows that forgetting
  them gives \<open>paginateText\<close> back.
\<close>

datatype origin =
    Row nat nat       \<comment> \<open>row \<open>r\<close> of the table that is block number \<open>b\<close>: \<open>Row b r\<close>\<close>
  | Line              \<comment> \<open>a rule, a heading, or the first visual line of a plain line\<close>
  | Wrapped           \<comment> \<open>a further visual line of the plain line before it\<close>
  | Spacer            \<comment> \<open>the blank line put before a table\<close>
  | HeaderRepeat nat  \<comment> \<open>a header line of table \<open>b\<close>, emitted again after a page break\<close>

type_synonym tline = "origin \<times> string"

record tstate =
  tpages :: "(tline list \<times> rat) list"
  tlines :: "tline list"
  theight :: rat

definition tPushPage :: "tstate \<Rightarrow> tstate" where
  "tPushPage st =
     \<lparr>tpages = tpages st @ [(tlines st, theight st)], tlines = [], theight = 0\<rparr>"

definition tPushLines :: "tline list \<Rightarrow> rat \<Rightarrow> tstate \<Rightarrow> tstate" where
  "tPushLines ls h st = st\<lparr>tlines := tlines st @ ls, theight := theight st + h\<rparr>"

fun tTableRows ::
  "rat \<Rightarrow> nat \<Rightarrow> string list \<Rightarrow> nat \<Rightarrow> string list \<Rightarrow> tstate \<Rightarrow> tstate" where
  "tTableRows pxPerLine b headers r [] st = st"
| "tTableRows pxPerLine b headers r (row # rows) st =
     (let isHeaderRow = r < 2;
          st1 = (if theight st + pxPerLine > AVAILABLE_HEIGHT then
                   (let st' = tPushPage st
                    in if \<not> isHeaderRow \<and> length headers = 2
                       then tPushLines (map (Pair (HeaderRepeat b)) headers)
                              (of_nat (length headers) * pxPerLine) st'
                       else st')
                 else st)
      in tTableRows pxPerLine b headers (r + 1) rows
           (tPushLines [(Row b r, row)] pxPerLine st1))"

definition tPlaceUnit :: "tline \<Rightarrow> rat \<Rightarrow> tstate \<Rightarrow> tstate" where
  "tPlaceUnit line h st =
     tPushLines [line] h
       (if theight st + h > AVAILABLE_HEIGHT then tPushPage st else st)"

fun tPlaceVisualLines :: "rat \<Rightarrow> tline list \<Rightarrow> tstate \<Rightarrow> tstate" where
  "tPlaceVisualLines pxPerLine [] st = st"
| "tPlaceVisualLines pxPerLine (vLine # vs) st =
     tPlaceVisualLines pxPerLine vs (tPlaceUnit vLine pxPerLine st)"

definition tagRows :: "nat \<Rightarrow> string list \<Rightarrow> tline list" where
  "tagRows b rows = map (\<lambda>(r, row). (Row b r, row)) (enumerate 0 rows)"

definition tagVisual :: "string list \<Rightarrow> tline list" where
  "tagVisual vs = (case vs of [] \<Rightarrow> [] | v # vs' \<Rightarrow> (Line, v) # map (Pair Wrapped) vs')"

definition tProcessBlock :: "rat \<Rightarrow> limit \<Rightarrow> tstate \<Rightarrow> nat \<times> block \<Rightarrow> tstate" where
  "tProcessBlock pxPerLine maxChars st nb =
     (case nb of (n, b) \<Rightarrow>
      (case type b of
        Table \<Rightarrow>
          (let headers = take 2 (content b);
               tableHeight = of_nat (length (content b)) * getLineHeight pxPerLine False True False
           in if theight st + tableHeight \<le> AVAILABLE_HEIGHT then
                tPushLines (tagRows n (content b)) tableHeight
                  (if length (tlines st) > 0 then tPushLines [(Spacer, [])] pxPerLine st else st)
              else
                tTableRows pxPerLine n headers 0 (content b)
                  (if length (tlines st) > 0 \<and> theight st > 0
                   then tPushLines [(Spacer, [])] pxPerLine st else st))
      | Hr \<Rightarrow>
          (case content b of
             [] \<Rightarrow> st
           | line # _ \<Rightarrow> tPlaceUnit (Line, line) (getLineHeight pxPerLine False False True) st)
      | Text \<Rightarrow>
          (case content b of
             [] \<Rightarrow> st
           | line # _ \<Rightarrow>
               if isHeader line
               then tPlaceUnit (Line, line) (getLineHeight pxPerLine True False False) st
               else tPlaceVisualLines pxPerLine (tagVisual (wrapText line maxChars)) st)))"

text \<open>
  The pages of a call with their provenance. The page of the early return for the empty
  document is the document's one (empty) line.
\<close>

definition traceBlocks :: "rat \<Rightarrow> limit \<Rightarrow> block list \<Rightarrow> tstate" where
  "traceBlocks pxPerLine maxChars blocks =
     foldl (tProcessBlock pxPerLine maxChars)
       \<lparr>tpages = [], tlines = [], theight = 0\<rparr> (enumerate 0 blocks)"

definition paginateTrace :: "string \<Rightarrow> rat \<Rightarrow> rat \<Rightarrow> (tline list \<times> rat) list" where
  "paginateTrace text fontSize lineHeight =
     (if text = [] then [([(Line, [])], 0)]
      else
        (let st = traceBlocks (fontSize * lineHeight) (charsPerLine fontSize)
                    (segment (split CHR 0x0A text));
             pages' = (if length (tlines st) > 0
                       then tpages st @ [(tlines st, theight st)] else tpages st)
         in if length pages' > 0 then pages' else [([], 0)]))"

definition render :: "tline list \<times> rat \<Rightarrow> string" where
  "render p = join nl (map snd (fst p))"

definition erase :: "tstate \<Rightarrow> pstate" where
  "erase st =
     \<lparr>pages = map render (tpages st),
      currentPageLines = map snd (tlines st),
      currentHeightUsed = theight st\<rparr>"

text \<open>
  Reading a document back from labelled lines: spacers and repeated headers are left out,
  a \<open>Wrapped\<close> line is joined to the line before it with one space.
\<close>

fun rebuild :: "string list \<Rightarrow> tline list \<Rightarrow> string list" where
  "rebuild acc [] = acc"
| "rebuild acc ((Spacer, s) # ls) = rebuild acc ls"
| "rebuild acc ((HeaderRepeat b, s) # ls) = rebuild acc ls"
| "rebuild acc ((Wrapped, s) # ls) = rebuild (butlast acc @ [last acc @ sp @ s]) ls"
| "rebuild acc ((Line, s) # ls) = rebuild (acc @ [s]) ls"
| "rebuild acc ((Row b r, s) # ls) = rebuild (acc @ [s]) ls"

text \<open>All lines placed so far, in order: those of the sealed pages, then the current page.\<close>

definition emitted :: "tstate \<Rightarrow> tline list" where
  "emitted st = concat (map fst (tpages st)) @ tlines st"

text \<open>
  What the page of a data row of table \<open>b\<close> has to show: the table's first row, or the
  table's separator row as its first line, or the table's two header lines, repeated, as
  its first two lines.
\<close>

definition lead :: "block list \<Rightarrow> nat \<Rightarrow> tline list \<Rightarrow> bool" where
  "lead blocks b p \<longleftrightarrow>
     Row b 0 \<in> fst ` set p \<or>
     take 1 p = [(Row b 1, content (blocks ! b) ! 1)] \<or>
     take 2 p = [(HeaderRepeat b, content (blocks ! b) ! 0),
                 (HeaderRepeat b, content (blocks ! b) ! 1)]"

definition good :: "block list \<Rightarrow> tline list \<Rightarrow> bool" where
  "good blocks p \<longleftrightarrow> (\<forall>b r s. (Row b r, s) \<in> set p \<and> 2 \<le> r \<longrightarrow> lead blocks b p)"

definition allGood :: "block list \<Rightarrow> tstate \<Rightarrow> bool" where
  "allGood blocks st \<longleftrightarrow> (\<forall>p \<in> fst ` set (tpages st). good blocks p) \<and> good blocks (tlines st)"

text \<open>
  What the budget leaves to a page with the lines \<open>p\<close> and the accumulated height
  \<open>h\<close>.
\<close>

definition withinBudget :: "tline list \<Rightarrow> rat \<Rightarrow> bool" where
  "withinBudget p h \<longleftrightarrow>
     Spacer \<in> fst ` set p \<or> h \<le> AVAILABLE_HEIGHT \<or> length p = 1 \<or>
     (\<exists>b r. map fst p = [HeaderRepeat b, HeaderRepeat b, Row b r])"

definition budgetInv :: "tstate \<Rightarrow> bool" where
  "budgetInv st \<longleftrightarrow>
     (\<forall>ph \<in> set (tpages st). withinBudget (fst ph) (snd ph)) \<and> withinBudget (tlines st) (theight st)"

text \<open>
  Two runs of the page assembly over the same blocks are compared by the number of pages
  sealed so far and, when these are equal, by the height used on the current page; two
  values of \<open>charsPerLine\<close> by what fits.
\<close>

definition behind :: "pstate \<Rightarrow> pstate \<Rightarrow> bool" where
  "behind s1 s2 \<longleftrightarrow>
     length (pages s1) < length (pages s2) \<or>
     (length (pages s1) = length (pages s2) \<and> currentHeightUsed s1 \<le> currentHeightUsed s2)"

definition tighter :: "limit \<Rightarrow> limit \<Rightarrow> bool" where
  "tighter m2 m1 \<longleftrightarrow> (\<forall>n. le_limit n m2 \<longrightarrow> le_limit n m1)"

section \<open>The loops of the segmentation\<close>

text \<open>
  The two \<open>while\<close> loops of the block segmentation once more, as they are written: over
  the indices \<open>i\<close> and \<open>j\<close> into \<open>rawLines\<close>, with the index and the array built so far
  as loop variables. A loop that did not end would have the value \<open>None\<close>. The loops
  of the page assembly are \<open>for\<close> loops that count up to the length of an array they
  do not change, or run over the elements of one; they are the recursions over lists
  above.
\<close>

partial_function (option) tableScan :: "string list \<Rightarrow> nat \<Rightarrow> string list \<Rightarrow> (string list \<times> nat) option" where
  "tableScan rawLines j tableLines =
     (if j < length rawLines \<and> is_table_row (rawLines ! j)
      then tableScan rawLines (j + 1) (tableLines @ [rawLines ! j])
      else Some (tableLines, j))"

partial_function (option) segmentLoop :: "string list \<Rightarrow> nat \<Rightarrow> block list \<Rightarrow> block list option" where
  "segmentLoop rawLines i blocks =
     (if i < length rawLines then
        (let line = rawLines ! i in
         if is_table_row line then
           (case tableScan rawLines i [] of
              None \<Rightarrow> None
            | Some (tableLines, j) \<Rightarrow>
                segmentLoop rawLines j (blocks @ [\<lparr>type = Table, content = tableLines\<rparr>]))
         else if is_hr line then
           segmentLoop rawLines (i + 1) (blocks @ [\<lparr>type = Hr, content = [line]\<rparr>])
         else segmentLoop rawLines (i + 1) (blocks @ [\<lparr>type = Text, content = [line]\<rparr>]))
      else Some blocks)"

text \<open>The \<open>for\<close> loop of \<open>wrapText\<close> over the index \<open>k\<close>, in the same way.\<close>

partial_function (option) wrapFor ::
  "limit \<Rightarrow> string list \<Rightarrow> nat \<Rightarrow> string list \<Rightarrow> string \<Rightarrow> (string list \<times> string) option" where
  "wrapFor max' words k wrapped current =
     (if k < length words then
        (let word = words ! k in
         if le_limit (length current + 1 + length word) max'
         then wrapFor max' words (k + 1) wrapped (current @ sp @ word)
         else wrapFor max' words (k + 1) (wrapped @ [current]) word)
      else Some (wrapped, current))"

definition wrapTextLoops :: "string \<Rightarrow> limit \<Rightarrow> string list option" where
  "wrapTextLoops str max' =
     (if le_limit (length str) max' then Some [str]
      else
        (let words = split CHR 0x20 str;
             current = (case words of [] \<Rightarrow> [] | w # _ \<Rightarrow> w)
         in case wrapFor max' words 1 [] current of
              None \<Rightarrow> None
            | Some (wrapped, current') \<Rightarrow> Some (wrapped @ [current'])))"

text \<open>\<open>paginateText\<close> with the segmentation done by these loops.\<close>

definition paginateTextLoops :: "string \<Rightarrow> rat \<Rightarrow> rat \<Rightarrow> string list option" where
  "paginateTextLoops text fontSize lineHeight =
     (if text = [] then Some [[]]
      else
        (case segmentLoop (split CHR 0x0A text) 0 [] of
           None \<Rightarrow> None
         | Some blocks \<Rightarrow>
             (let pxPerLine = fontSize * lineHeight;
                  st = foldl (processBlock pxPerLine (charsPerLine fontSize))
                         \<lparr>pages = [], currentPageLines = [], currentHeightUsed = 0\<rparr> blocks;
                  pages' = (if length (currentPageLines st) > 0
                            then pages st @ [join nl (currentPageLines st)] else pages st)
              in Some (if length pages' > 0 then pages' else [[]]))))"

section \<open>Units of a document without tables\<close>

text \<open>
  What the page assembly places for a line that is not a table row: the line itself with
  the height of a rule or of a heading, or its visual lines with one line height each;
  and the loop that places a list of such units.
\<close>

definition unitsOf :: "rat \<Rightarrow> limit \<Rightarrow> string \<Rightarrow> (string \<times> rat) list" where
  "unitsOf pxPerLine maxChars x =
     (if is_hr x then [(x, getLineHeight pxPerLine False False True)]
      else if isHeader x then [(x, getLineHeight pxPerLine True False False)]
      else map (\<lambda>v. (v, pxPerLine)) (wrapText x maxChars))"






section \<open>Forgetting the provenance\<close>

lemma erase_simps [simp]:
  "pages (erase st) = map render (tpages st)"
  "currentPageLines (erase st) = map snd (tlines st)"
  "currentHeightUsed (erase st) = theight st"
  by (simp_all add: erase_def)

lemma erase_pushPage: "erase (tPushPage st) = pushPage (erase st)"
  by (simp add: erase_def tPushPage_def pushPage_def render_def)

lemma erase_pushLines: "erase (tPushLines ls h st) = pushLines (map snd ls) h (erase st)"
  by (simp add: erase_def tPushLines_def pushLines_def)

lemma erase_placeUnit: "erase (tPlaceUnit u h st) = placeUnit (snd u) h (erase st)"
  by (simp add: tPlaceUnit_def placeUnit_def erase_pushLines erase_pushPage)

lemma erase_placeVisualLines:
  "erase (tPlaceVisualLines px vs st) = placeVisualLines px (map snd vs) (erase st)"
  by (induction vs arbitrary: st) (simp_all add: erase_placeUnit)

lemma map_snd_headers: "map (snd \<circ> Pair x) hs = hs"
  by (simp add: comp_def)

lemma erase_tableRows:
  "erase (tTableRows px b hs r rows st) = tableRows px hs r rows (erase st)"
  by (induction rows arbitrary: st r)
     (simp_all add: Let_def erase_pushLines erase_pushPage map_snd_headers)

lemma map_snd_tagRows: "map snd (tagRows b rows) = rows"
  by (simp add: tagRows_def comp_def case_prod_unfold)

lemma map_snd_tagVisual: "map snd (tagVisual vs) = vs"
  by (cases vs) (simp_all add: tagVisual_def map_snd_headers)

lemma erase_processBlock:
  "erase (tProcessBlock px m st (n, b)) = processBlock px m (erase st) b"
  by (simp add: tProcessBlock_def processBlock_def Let_def erase_pushLines erase_tableRows
      erase_placeUnit erase_placeVisualLines map_snd_tagRows map_snd_tagVisual
      split: block_type.split list.split)

lemma erase_foldl:
  "erase (foldl (tProcessBlock px m) st (enumerate n bs)) = foldl (processBlock px m) (erase st) bs"
  by (induction bs arbitrary: st n) (simp_all add: erase_processBlock)

lemma paginateText_trace: "paginateText text f l = map render (paginateTrace text f l)"
proof (cases "text = []")
  case True
  then show ?thesis
    by (simp add: paginateText_def paginateTrace_def render_def)
next
  case False
  define st where "st = traceBlocks (f * l) (charsPerLine f) (segment (split CHR 0x0A text))"
  have e: "foldl (processBlock (f * l) (charsPerLine f))
             \<lparr>pages = [], currentPageLines = [], currentHeightUsed = 0\<rparr>
             (segment (split CHR 0x0A text)) = erase st"
    unfolding st_def traceBlocks_def erase_foldl by (simp add: erase_def)
  show ?thesis
    using False
    by (simp add: paginateText_def paginateTrace_def Let_def e st_def [symmetric] render_def)
qed

section \<open>Splitting, joining and wrapping\<close>

lemma split_not_Nil [simp]: "split c s \<noteq> []"
  by (induction s) (simp_all split: list.split)

lemma join_Cons: "join sep (x # xs) = x @ (if xs = [] then [] else sep @ join sep xs)"
  by (cases xs) simp_all

lemma join_append:
  "join sep (xs @ ys) =
     (if xs = [] then join sep ys else if ys = [] then join sep xs
      else join sep xs @ sep @ join sep ys)"
  by (induction xs) (auto simp: join_Cons)

lemma join_split: "join [c] (split c s) = s"
  by (induction s) (auto simp: join_Cons split: list.split)

lemma split_no_sep: "w \<in> set (split c s) \<Longrightarrow> c \<notin> set w"
  by (induction s arbitrary: w) (auto split: if_splits list.splits)

lemma split_word: "c \<notin> set w \<Longrightarrow> split c w = [w]"
  by (induction w) auto

lemma split_append: "split c (a @ c # b) = split c a @ split c b"
  by (induction a) (auto split: list.split)

lemma wrapLoop_words:
  "\<forall>w \<in> set ws. CHR 0x20 \<notin> set w \<Longrightarrow>
   concat (map (split CHR 0x20) (fst (wrapLoop m ws wrapped cur) @ [snd (wrapLoop m ws wrapped cur)]))
     = concat (map (split CHR 0x20) wrapped) @ split CHR 0x20 cur @ ws"
  by (induction ws arbitrary: wrapped cur) (simp_all add: sp_def split_append split_word)

lemma join_merge: "join sep (xs @ (a @ sep @ b) # ys) = join sep (xs @ a # b # ys)"
  by (simp add: join_append join_Cons)

lemma wrapLoop_join:
  "join sp (fst (wrapLoop m ws wrapped cur) @ [snd (wrapLoop m ws wrapped cur)])
     = join sp (wrapped @ cur # ws)"
proof (induction ws arbitrary: wrapped cur)
  case Nil
  show ?case by simp
next
  case (Cons a ws)
  show ?case
  proof (cases "le_limit (length cur + 1 + length a) m")
    case True
    then show ?thesis
      using Cons.IH [of wrapped "cur @ sp @ a"] by (simp add: join_merge)
  next
    case False
    then show ?thesis
      using Cons.IH [of "wrapped @ [cur]" a] by simp
  qed
qed

text \<open>
  C8. \<open>wrapText\<close> breaks a line only at spaces: the words (the maximal space-free
  substrings, \<open>split ' '\<close>) of the visual lines, taken in order, are exactly the words
  of the input line, for every line and every \<open>max\<close>. So every word, whatever its length,
  stands whole in exactly one visual line.
\<close>

theorem wrapText_keeps_words:
  "concat (map (split CHR 0x20) (wrapText str m)) = split CHR 0x20 str"
proof (cases "le_limit (length str) m")
  case True
  then show ?thesis by (simp add: wrapText_def)
next
  case False
  obtain w ws where ws: "split CHR 0x20 str = w # ws"
    by (cases "split CHR 0x20 str") simp_all
  have "\<forall>x \<in> set ws. CHR 0x20 \<notin> set x" "CHR 0x20 \<notin> set w"
    using split_no_sep [of _ "CHR 0x20" str] ws by auto
  then show ?thesis
    using False ws wrapLoop_words [of ws m "[]" w]
    by (simp add: wrapText_def Let_def case_prod_unfold split_word)
qed

lemma join_wrapText: "join sp (wrapText str m) = str"
proof (cases "le_limit (length str) m")
  case True
  then show ?thesis by (simp add: wrapText_def)
next
  case False
  obtain w ws where ws: "split CHR 0x20 str = w # ws"
    by (cases "split CHR 0x20 str") simp_all
  have "join sp (w # ws) = str"
    using join_split [of "CHR 0x20" str] ws by (simp add: sp_def)
  then show ?thesis
    using False ws wrapLoop_join [of m ws "[]" w]
    by (simp add: wrapText_def Let_def case_prod_unfold)
qed

lemma wrapText_not_Nil [simp]: "wrapText str m \<noteq> []"
  by (simp add: wrapText_def Let_def case_prod_unfold)

section \<open>Block segmentation: classification\<close>

lemma segment_content:
  "b \<in> set (segment ls) \<Longrightarrow>
     (type b = Table \<longrightarrow> content b \<noteq> [] \<and> (\<forall>x \<in> set (content b). is_table_row x)) \<and>
     (type b \<noteq> Table \<longrightarrow>
        (\<exists>x. content b = [x] \<and> \<not> is_table_row x \<and>
           (type b = Hr \<longleftrightarrow> trim x = ''---'' \<or> trim x = ''___'' \<or> trim x = ''***'')))"
proof (induction ls arbitrary: b rule: segment.induct)
  case 1
  then show ?case by simp
next
  case (2 line rest)
  show ?case
  proof (cases "is_table_row line")
    case True
    then consider "b = \<lparr>type = Table, content = line # takeWhile is_table_row rest\<rparr>"
      | "b \<in> set (segment (dropWhile is_table_row rest))"
      using "2.prems" by auto
    then show ?thesis
    proof cases
      case 1
      then show ?thesis using True by (auto dest: set_takeWhileD)
    next
      case 2
      then show ?thesis using "2.IH"(1) [OF True] by simp
    qed
  next
    case nt: False
    show ?thesis
    proof (cases "is_hr line")
      case True
      then consider "b = \<lparr>type = Hr, content = [line]\<rparr>" | "b \<in> set (segment rest)"
        using "2.prems" nt by auto
      then show ?thesis
      proof cases
        case 1
        then show ?thesis using True nt by (simp add: is_hr_def)
      next
        case 2
        then show ?thesis using "2.IH"(2) [OF nt True] by simp
      qed
    next
      case False
      then consider "b = \<lparr>type = Text, content = [line]\<rparr>" | "b \<in> set (segment rest)"
        using "2.prems" nt by auto
      then show ?thesis
      proof cases
        case 1
        then show ?thesis using False nt by (simp add: is_hr_def)
      next
        case 2
        then show ?thesis using "2.IH"(3) [OF nt False] by simp
      qed
    qed
  qed
qed

lemma concat_segment: "concat (map content (segment ls)) = ls"
  by (induction ls rule: segment.induct) simp_all

text \<open>
  C5, as the code has it. The blocks partition the lines in order. A table block holds
  table rows only; every line that is not a table row is a block of its own, and it is a
  horizontal-rule block exactly when its trimmed form is one of the three markers
  \<open>---\<close>, \<open>___\<close>, \<open>***\<close> (three characters, no more), a text block otherwise.
\<close>

theorem segment_classifies:
  "concat (map content (segment ls)) = ls \<and>
   (\<forall>b \<in> set (segment ls).
     (type b = Table \<longrightarrow> content b \<noteq> [] \<and> (\<forall>x \<in> set (content b). is_table_row x)) \<and>
     (type b \<noteq> Table \<longrightarrow>
        (\<exists>x. content b = [x] \<and> \<not> is_table_row x \<and>
           (type b = Hr \<longleftrightarrow> trim x = ''---'' \<or> trim x = ''___'' \<or> trim x = ''***''))))"
  using segment_content concat_segment by blast

text \<open>
  C5 as stated fails: a line of four dashes is three or more repeated \<open>-\<close>, and it is
  classified as a text block.
\<close>

theorem four_dashes_are_text:
  "segment [''----''] = [\<lparr>type = Text, content = [''----'']\<rparr>]"
  by (simp add: is_table_row_def is_hr_def trim_def is_space_def startsWith_def)

theorem segment_classifies_witness:
  "segment ['' --- '', ''|a|'', ''| b'', ''-----'', ''***''] =
     [\<lparr>type = Hr, content = ['' --- '']\<rparr>, \<lparr>type = Table, content = [''|a|'', ''| b'']\<rparr>,
      \<lparr>type = Text, content = [''-----'']\<rparr>, \<lparr>type = Hr, content = [''***'']\<rparr>] \<and>
   trim '' --- '' = ''---'' \<and> \<not> is_table_row ''-----'' \<and> is_table_row ''| b''"
  using segment_classifies [of "['' --- '', ''|a|'', ''| b'', ''-----'', ''***'']"]
  by (simp add: is_table_row_def is_hr_def trim_def is_space_def startsWith_def)

section \<open>Content preservation\<close>

lemma emitted_pushPage [simp]: "emitted (tPushPage st) = emitted st"
  by (simp add: emitted_def tPushPage_def)

lemma emitted_pushLines [simp]: "emitted (tPushLines ls h st) = emitted st @ ls"
  by (simp add: emitted_def tPushLines_def)

lemma emitted_placeUnit [simp]: "emitted (tPlaceUnit u h st) = emitted st @ [u]"
  by (simp add: tPlaceUnit_def)

lemma emitted_placeVisualLines [simp]:
  "emitted (tPlaceVisualLines px vs st) = emitted st @ vs"
  by (induction vs arbitrary: st) simp_all

lemma emitted_init: "emitted \<lparr>tpages = [], tlines = [], theight = 0\<rparr> = []"
  by (simp add: emitted_def)

lemma rebuild_append: "rebuild acc (xs @ ys) = rebuild (rebuild acc xs) ys"
  by (induction acc xs rule: rebuild.induct) simp_all

lemma rebuild_headers [simp]: "rebuild acc (map (Pair (HeaderRepeat b)) hs) = acc"
  by (induction hs) simp_all

lemma rebuild_wrapped: "rebuild (acc @ [s]) (map (Pair Wrapped) vs) = acc @ [join sp (s # vs)]"
  by (induction vs arbitrary: s) (simp_all add: join_Cons)

lemma rebuild_tagVisual: "vs \<noteq> [] \<Longrightarrow> rebuild acc (tagVisual vs) = acc @ [join sp vs]"
  by (cases vs) (simp_all add: tagVisual_def rebuild_wrapped)

lemma rebuild_rows:
  "rebuild acc (map (\<lambda>(r, row). (Row b r, row)) (enumerate n rows)) = acc @ rows"
  by (induction rows arbitrary: acc n) simp_all

lemma rebuild_tableRows:
  "rebuild acc (emitted (tTableRows px b hs r rows st)) = rebuild acc (emitted st) @ rows"
proof (induction rows arbitrary: st r)
  case Nil
  show ?case by simp
next
  case (Cons row rows)
  let ?st1 = "tPushLines [(Row b r, row)] px
     (if theight st + px > AVAILABLE_HEIGHT then
        (let st' = tPushPage st
         in if \<not> r < 2 \<and> length hs = 2
            then tPushLines (map (Pair (HeaderRepeat b)) hs) (of_nat (length hs) * px) st'
            else st')
      else st)"
  have "rebuild acc (emitted ?st1) = rebuild acc (emitted st) @ [row]"
    by (simp add: Let_def rebuild_append)
  moreover have "tTableRows px b hs r (row # rows) st = tTableRows px b hs (r + 1) rows ?st1"
    by (simp add: Let_def)
  ultimately show ?case
    using Cons.IH [of "r + 1" ?st1] by simp
qed

lemma rebuild_processBlock:
  assumes "type b \<noteq> Table \<longrightarrow> (\<exists>x. content b = [x])"
  shows "rebuild acc (emitted (tProcessBlock px m st (n, b))) = rebuild acc (emitted st) @ content b"
proof (cases "type b")
  case Table
  then show ?thesis
    by (simp add: tProcessBlock_def Let_def rebuild_append rebuild_tableRows tagRows_def rebuild_rows)
next
  case Text
  then obtain x where "content b = [x]" using assms by auto
  then show ?thesis
    using Text
    by (simp add: tProcessBlock_def rebuild_append rebuild_tagVisual join_wrapText)
next
  case Hr
  then obtain x where "content b = [x]" using assms by auto
  then show ?thesis
    using Hr by (simp add: tProcessBlock_def rebuild_append)
qed

lemma rebuild_foldl:
  assumes "\<forall>b \<in> set bs. type b \<noteq> Table \<longrightarrow> (\<exists>x. content b = [x])"
  shows "rebuild acc (emitted (foldl (tProcessBlock px m) st (enumerate n bs)))
           = rebuild acc (emitted st) @ concat (map content bs)"
  using assms
proof (induction bs arbitrary: st n)
  case Nil
  show ?case by simp
next
  case (Cons b bs)
  then show ?case
    by (simp add: rebuild_processBlock)
qed

lemma segment_single: "\<forall>b \<in> set (segment ls). type b \<noteq> Table \<longrightarrow> (\<exists>x. content b = [x])"
  using segment_content by blast

lemma concat_paginateTrace:
  "text \<noteq> [] \<Longrightarrow>
   concat (map fst (paginateTrace text f l)) =
     emitted (traceBlocks (f * l) (charsPerLine f) (segment (split CHR 0x0A text)))"
  by (simp add: paginateTrace_def Let_def emitted_def)

text \<open>
  C1, as the code has it. Take the lines placed on the pages, in order; leave out the
  blank spacer lines and the re-emitted table header lines; join every further visual line
  that \<open>wrapText\<close> made of a plain line to the line before it with one space. The
  result is the line sequence of the document: no line is dropped, duplicated or
  reordered, and a line is altered only by being broken at spaces when it is longer than
  \<open>charsPerLine\<close>. The pages returned are these lines, joined by newlines.
\<close>

theorem content_preserved_up_to_wrapping:
  "rebuild [] (concat (map fst (paginateTrace text f l))) = split CHR 0x0A text \<and>
   paginateText text f l = map render (paginateTrace text f l)"
proof (cases "text = []")
  case True
  then show ?thesis
    by (simp add: paginateTrace_def paginateText_def render_def)
next
  case False
  have "rebuild [] (emitted (traceBlocks (f * l) (charsPerLine f) (segment (split CHR 0x0A text))))
          = split CHR 0x0A text"
    unfolding traceBlocks_def
    by (simp add: rebuild_foldl [OF segment_single] concat_segment emitted_init)
  then show ?thesis
    using False by (simp add: concat_paginateTrace paginateText_trace)
qed

text \<open>
  C1 as stated fails: with the default font size 22 and line height 1.6 a line holds at
  most 70 characters, so a plain line of two 40-character words comes out as two lines.
  No table is involved, so nothing is a header or a spacer.
\<close>

theorem wrapped_line_is_altered:
  "concat (map (split CHR 0x0A)
     (paginateText (replicate 40 CHR ''a'' @ '' '' @ replicate 40 CHR ''b'') 22 (8 / 5))) =
     [replicate 40 CHR ''a'', replicate 40 CHR ''b''] \<and>
   split CHR 0x0A (replicate 40 CHR ''a'' @ '' '' @ replicate 40 CHR ''b'') =
     [replicate 40 CHR ''a'' @ '' '' @ replicate 40 CHR ''b'']"
  by code_simp

section \<open>Table header continuity\<close>

lemma lead_append: "lead B b p \<Longrightarrow> lead B b (p @ q)"
  by (cases p; cases "tl p") (auto simp: lead_def)

lemma good_Nil [simp]: "good B []"
  by (simp add: good_def)

lemma good_append:
  assumes "good B p" and "\<forall>b r s. (Row b r, s) \<in> set q \<and> 2 \<le> r \<longrightarrow> lead B b (p @ q)"
  shows "good B (p @ q)"
  unfolding good_def
proof (intro allI impI)
  fix b r s
  assume a: "(Row b r, s) \<in> set (p @ q) \<and> 2 \<le> r"
  show "lead B b (p @ q)"
  proof (cases "(Row b r, s) \<in> set p")
    case True
    then have "lead B b p" using assms(1) a by (auto simp: good_def)
    then show ?thesis by (rule lead_append)
  next
    case False
    then show ?thesis using a assms(2) by auto
  qed
qed

lemma allGood_pushPage: "allGood B st \<Longrightarrow> allGood B (tPushPage st)"
  by (auto simp: allGood_def tPushPage_def)

lemma allGood_pushLines:
  assumes "allGood B st"
    and "\<forall>b r s. (Row b r, s) \<in> set q \<and> 2 \<le> r \<longrightarrow> lead B b (tlines st @ q)"
  shows "allGood B (tPushLines q h st)"
  using assms by (simp add: allGood_def tPushLines_def good_append)

lemma allGood_pushPlain:
  assumes "allGood B st" and "\<forall>b r s. (Row b r, s) \<notin> set q"
  shows "allGood B (tPushLines q h st)"
  using assms by (intro allGood_pushLines) auto

lemma allGood_placeUnit:
  assumes "allGood B st" and "\<forall>b r. fst u \<noteq> Row b r"
  shows "allGood B (tPlaceUnit u h st)"
  unfolding tPlaceUnit_def
  using assms by (intro allGood_pushPlain) (auto simp: allGood_pushPage)

lemma allGood_placeVisualLines:
  assumes "allGood B st" and "\<forall>u \<in> set vs. \<forall>b r. fst u \<noteq> Row b r"
  shows "allGood B (tPlaceVisualLines px vs st)"
  using assms
  by (induction vs arbitrary: st) (simp_all add: allGood_placeUnit)

lemma tagVisual_no_Row: "\<forall>u \<in> set (tagVisual vs). \<forall>b r. fst u \<noteq> Row b r"
  by (cases vs) (auto simp: tagVisual_def)


lemma drop_Cons_nth:
  assumes "drop r xs = x # ys"
  shows "r < length xs \<and> x = xs ! r \<and> drop (Suc r) xs = ys"
proof -
  have r: "r < length xs" using assms by (cases "r < length xs") simp_all
  then have "drop r xs = xs ! r # drop (Suc r) xs" by (simp add: Cons_nth_drop_Suc)
  then show ?thesis using assms r by simp
qed

lemma allGood_tableRows:
  assumes "allGood B st" and "drop r (content (B ! n)) = rem"
    and "hs = take 2 (content (B ! n))" and "1 \<le> r \<longrightarrow> lead B n (tlines st)"
  shows "allGood B (tTableRows px n hs r rem st)"
  using assms
proof (induction rem arbitrary: st r)
  case Nil
  then show ?case by simp
next
  case (Cons row rem)
  let ?rows = "content (B ! n)"
  let ?st0 = "(if theight st + px > AVAILABLE_HEIGHT then
        (let st' = tPushPage st
         in if \<not> r < 2 \<and> length hs = 2
            then tPushLines (map (Pair (HeaderRepeat n)) hs) (of_nat (length hs) * px) st'
            else st')
      else st)"
  let ?st1 = "tPushLines [(Row n r, row)] px ?st0"
  have d: "r < length ?rows" "row = ?rows ! r" "drop (Suc r) ?rows = rem"
    using drop_Cons_nth [OF Cons.prems(2)] by simp_all
  have hs2: "2 \<le> r \<Longrightarrow> hs = [?rows ! 0, ?rows ! 1]"
  proof -
    assume "2 \<le> r"
    then have "2 < length ?rows" using d(1) by simp
    then show ?thesis
      using Cons.prems(3)
      by (cases ?rows; cases "tl ?rows"; cases "tl (tl ?rows)") (auto simp: numeral_2_eq_2)
  qed
  have g0: "allGood B ?st0"
    using Cons.prems(1)
    by (auto simp: Let_def intro!: allGood_pushPlain allGood_pushPage)
  have l1: "lead B n (tlines ?st0 @ [(Row n r, row)])"
  proof (cases "theight st + px > AVAILABLE_HEIGHT")
    case True
    consider "r = 0" | "r = 1" | "2 \<le> r" by linarith
    then show ?thesis
    proof cases
      case 1
      then show ?thesis using True by (simp add: lead_def tPushPage_def)
    next
      case 2
      then show ?thesis using True d(2) by (simp add: lead_def tPushPage_def)
    next
      case 3
      then show ?thesis
        using True hs2 [OF 3] by (simp add: lead_def tPushPage_def tPushLines_def)
    qed
  next
    case False
    show ?thesis
    proof (cases "r = 0")
      case True
      then show ?thesis using False by (simp add: lead_def)
    next
      case nz: False
      then have "lead B n (tlines st)" using Cons.prems(4) by simp
      then show ?thesis using False by (simp add: lead_append)
    qed
  qed
  have g1: "allGood B ?st1"
    using g0 l1 by (intro allGood_pushLines) auto
  have l2: "lead B n (tlines ?st1)"
    using l1 by (simp add: tPushLines_def)
  have "tTableRows px n hs r (row # rem) st = tTableRows px n hs (Suc r) rem ?st1"
    by (simp add: Let_def)
  then show ?case
    using Cons.IH [of ?st1 "Suc r"] g1 d(3) Cons.prems(3) l2 by simp
qed

lemma tagRows_set:
  "(Row b r, s) \<in> set (tagRows n rows) \<Longrightarrow> b = n \<and> rows \<noteq> []"
  by (auto simp: tagRows_def in_set_enumerate_eq)

lemma tagRows_first: "rows \<noteq> [] \<Longrightarrow> Row n 0 \<in> fst ` set (tagRows n rows)"
  by (cases rows) (auto simp: tagRows_def image_iff)

lemma allGood_processBlock:
  assumes "allGood B st"
  shows "allGood B (tProcessBlock px m st (n, B ! n))"
proof (cases "type (B ! n)")
  case Table
  let ?rows = "content (B ! n)"
  let ?sp = "(if length (tlines st) > 0 then tPushLines [(Spacer, [])] px st else st)"
  let ?sp2 = "(if length (tlines st) > 0 \<and> theight st > 0
                then tPushLines [(Spacer, [])] px st else st)"
  have s1: "allGood B ?sp" using assms by (auto intro!: allGood_pushPlain)
  have s2: "allGood B ?sp2" using assms by (auto intro!: allGood_pushPlain)
  have fit: "allGood B (tPushLines (tagRows n ?rows) h ?sp)" for h
  proof (rule allGood_pushLines [OF s1], intro allI impI)
    fix b r s
    assume "(Row b r, s) \<in> set (tagRows n ?rows) \<and> 2 \<le> r"
    then have "b = n" "?rows \<noteq> []" using tagRows_set by blast+
    then show "lead B b (tlines ?sp @ tagRows n ?rows)"
      using tagRows_first [of ?rows n] by (auto simp: lead_def)
  qed
  have spl: "allGood B (tTableRows px n (take 2 ?rows) 0 ?rows ?sp2)"
    by (rule allGood_tableRows [OF s2]) simp_all
  show ?thesis
    using Table fit spl by (simp add: tProcessBlock_def Let_def)
next
  case Text
  have v: "allGood B (tPlaceVisualLines px (tagVisual vs) st)" for vs
    using assms tagVisual_no_Row by (rule allGood_placeVisualLines)
  have u: "allGood B (tPlaceUnit (Line, x) h st)" for x h
    using assms by (rule allGood_placeUnit) simp
  show ?thesis
    using Text assms u v by (simp add: tProcessBlock_def split: list.split)
next
  case Hr
  then show ?thesis
    using assms
    by (auto simp: tProcessBlock_def split: list.split intro!: allGood_placeUnit)
qed

lemma allGood_foldl:
  assumes "allGood B st" and "drop n B = bs"
  shows "allGood B (foldl (tProcessBlock px m) st (enumerate n bs))"
  using assms
proof (induction bs arbitrary: st n)
  case Nil
  then show ?case by simp
next
  case (Cons b bs)
  have d: "b = B ! n" "drop (Suc n) B = bs"
    using drop_Cons_nth [OF Cons.prems(2)] by simp_all
  have "allGood B (tProcessBlock px m st (n, b))"
    unfolding d(1) using Cons.prems(1) by (rule allGood_processBlock)
  then show ?case
    using Cons.IH [of "tProcessBlock px m st (n, b)" "Suc n"] d(2) by simp
qed

text \<open>
  C3, as the code has it. Take any page and any table row on it that is not one of the
  table's two header rows (row index 2 or more). Then the page holds the table's original
  label row (the table starts on this page), or the page begins with the two original
  header lines of that table, re-emitted verbatim, or the page begins with the table's own
  separator row: a page opened while the separator row was being placed gets no repeated
  label row.
\<close>

theorem table_header_continuity:
  assumes "(p, h) \<in> set (paginateTrace text f l)" and "(Row b r, s) \<in> set p" and "2 \<le> r"
  shows "Row b 0 \<in> fst ` set p \<or>
         take 1 p = [(Row b 1, content (segment (split CHR 0x0A text) ! b) ! 1)] \<or>
         take 2 p = [(HeaderRepeat b, content (segment (split CHR 0x0A text) ! b) ! 0),
                     (HeaderRepeat b, content (segment (split CHR 0x0A text) ! b) ! 1)]"
proof -
  let ?B = "segment (split CHR 0x0A text)"
  let ?st = "traceBlocks (f * l) (charsPerLine f) ?B"
  have ne: "text \<noteq> []"
    using assms(1,2) by (auto simp: paginateTrace_def)
  have "allGood ?B ?st"
    unfolding traceBlocks_def
    by (rule allGood_foldl) (simp_all add: allGood_def)
  moreover have "p \<in> fst ` set (tpages ?st) \<or> p = tlines ?st"
    using assms(1,2) ne
    by (auto simp: paginateTrace_def Let_def split: if_splits intro: rev_image_eqI)
  ultimately have "good ?B p"
    by (auto simp: allGood_def)
  then have "lead ?B b p"
    using assms(2,3) by (auto simp: good_def)
  then show ?thesis by (simp add: lead_def)
qed


theorem table_header_continuity_witness:
  "([(HeaderRepeat 1, ''|a|''), (HeaderRepeat 1, ''|-|''), (Row 1 2, ''|1|''), (Row 1 3, ''|2|'')], 840)
     \<in> set (paginateTrace (join nl [''aaa bbb'', ''|a|'', ''|-|'', ''|1|'', ''|2|'', ''|3|'']) 210 1) \<and>
   take 2 [(HeaderRepeat 1, ''|a|''), (HeaderRepeat 1, ''|-|''), (Row 1 2, ''|1|''), (Row 1 3, ''|2|'')] =
     [(HeaderRepeat 1,
        content (segment (split CHR 0x0A
          (join nl [''aaa bbb'', ''|a|'', ''|-|'', ''|1|'', ''|2|'', ''|3|''])) ! 1) ! 0),
      (HeaderRepeat 1,
        content (segment (split CHR 0x0A
          (join nl [''aaa bbb'', ''|a|'', ''|-|'', ''|1|'', ''|2|'', ''|3|''])) ! 1) ! 1)]"
proof -
  let ?T = "join nl [''aaa bbb'', ''|a|'', ''|-|'', ''|1|'', ''|2|'', ''|3|'']"
  let ?p = "[(HeaderRepeat 1, ''|a|''), (HeaderRepeat 1, ''|-|''), (Row 1 2, ''|1|''),
             (Row 1 3, ''|2|'')]"
  have t: "paginateTrace ?T 210 1 =
      [([(Line, ''aaa bbb''), (Spacer, []), (Row 1 0, ''|a|''), (Row 1 1, ''|-|'')], 840),
       (?p, 840),
       ([(HeaderRepeat 1, ''|a|''), (HeaderRepeat 1, ''|-|''), (Row 1 4, ''|3|'')], 630)]"
    by code_simp
  have m: "(?p, 840) \<in> set (paginateTrace ?T 210 1)"
    unfolding t by simp
  have r: "(Row 1 2, ''|1|'') \<in> set ?p"
    by simp
  have "Row 1 0 \<in> fst ` set ?p \<or>
        take 1 ?p = [(Row 1 1, content (segment (split CHR 0x0A ?T) ! 1) ! 1)] \<or>
        take 2 ?p = [(HeaderRepeat 1, content (segment (split CHR 0x0A ?T) ! 1) ! 0),
                     (HeaderRepeat 1, content (segment (split CHR 0x0A ?T) ! 1) ! 1)]"
    by (rule table_header_continuity [OF m r]) simp
  moreover have "content (segment (split CHR 0x0A ?T) ! 1) =
      [''|a|'', ''|-|'', ''|1|'', ''|2|'', ''|3|'']"
    by code_simp
  ultimately show ?thesis
    using m by simp
qed

text \<open>
  C3 as stated fails: two lines, then a table of three rows. Only the label row fits on
  the first page; the second page holds the data row \<open>|1|\<close> and begins with the
  separator row, not with the two header lines.
\<close>

theorem page_opened_at_separator_row:
  "paginateText (join nl [''x'', ''y'', ''|a|'', ''|-|'', ''|1|'']) 250 1 =
     [join nl [''x'', ''y'', [], ''|a|''], join nl [''|-|'', ''|1|'']] \<and>
   paginateTrace (join nl [''x'', ''y'', ''|a|'', ''|-|'', ''|1|'']) 250 1 =
     [([(Line, ''x''), (Line, ''y''), (Spacer, []), (Row 2 0, ''|a|'')], 1000),
      ([(Row 2 1, ''|-|''), (Row 2 2, ''|1|'')], 500)]"
  by code_simp

section \<open>The height budget\<close>

lemma withinBudget_Nil [simp]: "withinBudget [] 0"
  by (simp add: withinBudget_def AVAILABLE_HEIGHT_def)

lemma withinBudget_single: "withinBudget [u] h"
  by (simp add: withinBudget_def)

lemma withinBudget_le: "h \<le> AVAILABLE_HEIGHT \<Longrightarrow> withinBudget p h"
  by (simp add: withinBudget_def)

lemma withinBudget_headers:
  "withinBudget [(HeaderRepeat b, x), (HeaderRepeat b, y), (Row b r, s)] h"
  by (simp add: withinBudget_def)

lemma budgetInv_seal:
  "budgetInv st \<Longrightarrow> withinBudget p h \<Longrightarrow>
   budgetInv \<lparr>tpages = tpages st @ [(tlines st, theight st)], tlines = p, theight = h\<rparr>"
  by (simp add: budgetInv_def)

lemma budgetInv_cur:
  "budgetInv st \<Longrightarrow> withinBudget p h \<Longrightarrow> budgetInv (st\<lparr>tlines := p, theight := h\<rparr>)"
  by (simp add: budgetInv_def)

lemma budgetInv_pushPage: "budgetInv st \<Longrightarrow> budgetInv (tPushPage st)"
  by (simp add: tPushPage_def budgetInv_seal)

lemma budgetInv_placeUnit: "budgetInv st \<Longrightarrow> budgetInv (tPlaceUnit u h st)"
  by (simp add: tPlaceUnit_def tPushPage_def tPushLines_def budgetInv_seal budgetInv_cur
      withinBudget_single withinBudget_le)

lemma budgetInv_placeVisualLines:
  "budgetInv st \<Longrightarrow> budgetInv (tPlaceVisualLines px vs st)"
  by (induction vs arbitrary: st) (simp_all add: budgetInv_placeUnit)

lemma budgetInv_tableRows:
  "budgetInv st \<Longrightarrow> budgetInv (tTableRows px b hs r rows st)"
proof (induction rows arbitrary: st r)
  case Nil
  then show ?case by simp
next
  case (Cons row rows)
  let ?st1 = "tPushLines [(Row b r, row)] px
     (if theight st + px > AVAILABLE_HEIGHT then
        (let st' = tPushPage st
         in if \<not> r < 2 \<and> length hs = 2
            then tPushLines (map (Pair (HeaderRepeat b)) hs) (of_nat (length hs) * px) st'
            else st')
      else st)"
  have "budgetInv ?st1"
  proof (cases "theight st + px > AVAILABLE_HEIGHT")
    case True
    show ?thesis
    proof (cases "\<not> r < 2 \<and> length hs = 2")
      case t: True
      then obtain x y where "hs = [x, y]"
        by (cases hs; cases "tl hs") auto
      then show ?thesis
        using True t Cons.prems
        by (simp add: tPushPage_def tPushLines_def budgetInv_seal withinBudget_headers)
    next
      case False
      then show ?thesis
        using True Cons.prems
        by (auto simp: tPushPage_def tPushLines_def budgetInv_seal withinBudget_single)
    qed
  next
    case False
    then show ?thesis
      using Cons.prems by (simp add: tPushLines_def budgetInv_cur withinBudget_le)
  qed
  moreover have "tTableRows px b hs r (row # rows) st = tTableRows px b hs (r + 1) rows ?st1"
    by (simp add: Let_def)
  ultimately show ?case
    using Cons.IH [of ?st1 "r + 1"] by simp
qed

lemma withinBudget_spacer_append: "Spacer \<in> fst ` set q \<Longrightarrow> withinBudget (p @ q @ r) h"
  by (auto simp: withinBudget_def)

lemma budgetInv_spacer:
  "budgetInv st \<Longrightarrow> budgetInv (tPushLines [(Spacer, [])] px st)"
  using withinBudget_spacer_append [of "[(Spacer, [])]" "tlines st" "[]"]
  by (simp add: tPushLines_def budgetInv_cur)

lemma budgetInv_processBlock:
  assumes "budgetInv st"
  shows "budgetInv (tProcessBlock px m st (n, b))"
proof (cases "type b")
  case Table
  let ?th = "of_nat (length (content b)) * getLineHeight px False True False"
  have fit: "theight st + ?th \<le> AVAILABLE_HEIGHT \<Longrightarrow>
    budgetInv (tPushLines (tagRows n (content b)) ?th
      (if length (tlines st) > 0 then tPushLines [(Spacer, [])] px st else st))"
    using assms withinBudget_spacer_append [of "[(Spacer, [])]" "tlines st" "tagRows n (content b)"]
    by (simp add: tPushLines_def budgetInv_cur withinBudget_le)
  have spl: "budgetInv (tTableRows px n (take 2 (content b)) 0 (content b)
      (if length (tlines st) > 0 \<and> theight st > 0
       then tPushLines [(Spacer, [])] px st else st))"
    using assms by (intro budgetInv_tableRows) (simp add: budgetInv_spacer)
  show ?thesis
    using Table fit spl by (simp add: tProcessBlock_def Let_def)
next
  case Text
  then show ?thesis
    using assms
    by (simp add: tProcessBlock_def budgetInv_placeUnit budgetInv_placeVisualLines
        split: list.split)
next
  case Hr
  then show ?thesis
    using assms by (simp add: tProcessBlock_def budgetInv_placeUnit split: list.split)
qed

lemma budgetInv_foldl:
  "budgetInv st \<Longrightarrow> budgetInv (foldl (tProcessBlock px m) st nbs)"
proof (induction nbs arbitrary: st)
  case Nil
  then show ?case by simp
next
  case (Cons nb nbs)
  then show ?case
    by (cases nb) (simp add: budgetInv_processBlock)
qed

text \<open>
  C2, as the code has it. For a positive font size and a positive line height, a page
  that holds no blank spacer line has an accumulated height
  within the budget, or it consists of exactly one unit (whose height is then the page's
  and exceeds the budget), or it consists of the two re-emitted header lines of a table
  and one row of it: after a page break inside a table the headers and the row are placed
  without a test. Nothing is said about a page that holds a spacer line.
\<close>

theorem budget_respected_without_spacer:
  assumes "(p, h) \<in> set (paginateTrace text f l)" and "Spacer \<notin> fst ` set p"
    and "0 < f" and "0 < l"
  shows "h \<le> AVAILABLE_HEIGHT \<or> length p = 1 \<or>
         (\<exists>b r. map fst p = [HeaderRepeat b, HeaderRepeat b, Row b r])"
proof (cases "text = []")
  case True
  then show ?thesis
    using assms(1) by (simp add: paginateTrace_def)
next
  case False
  let ?st = "traceBlocks (f * l) (charsPerLine f) (segment (split CHR 0x0A text))"
  have "budgetInv ?st"
    unfolding traceBlocks_def by (rule budgetInv_foldl) (simp add: budgetInv_def)
  moreover have "(p, h) \<in> set (tpages ?st) \<or> (p, h) = (tlines ?st, theight ?st) \<or> (p, h) = ([], 0)"
    using assms(1) False by (auto simp: paginateTrace_def Let_def split: if_splits)
  ultimately have "withinBudget p h"
    by (auto simp: budgetInv_def)
  then show ?thesis
    using assms(2) by (simp add: withinBudget_def)
qed

theorem budget_respected_without_spacer_witness:
  "([(Line, ''# Title''), (Line, []), (Line, ''Some short paragraph.'')], 616 / 5)
     \<in> set (paginateTrace (join nl [''# Title'', [], ''Some short paragraph.'']) 22 (8 / 5)) \<and>
   Spacer \<notin> fst ` set [(Line, ''# Title''), (Line, []), (Line, ''Some short paragraph.'')] \<and>
   616 / 5 \<le> AVAILABLE_HEIGHT"
proof -
  let ?p = "[(Line, ''# Title''), (Line, []), (Line, ''Some short paragraph.'')]"
  have t: "paginateTrace (join nl [''# Title'', [], ''Some short paragraph.'']) 22 (8 / 5) =
      [(?p, 616 / 5)]"
    by code_simp
  have m: "(?p, 616 / 5)
      \<in> set (paginateTrace (join nl [''# Title'', [], ''Some short paragraph.'']) 22 (8 / 5))"
    unfolding t by simp
  have n: "Spacer \<notin> fst ` set ?p"
    by simp
  have "616 / 5 \<le> AVAILABLE_HEIGHT \<or> length ?p = 1 \<or>
        (\<exists>b r. map fst ?p = [HeaderRepeat b, HeaderRepeat b, Row b r])"
    by (rule budget_respected_without_spacer [OF m n]) simp_all
  then show ?thesis
    using m n by simp
qed

text \<open>
  C2 as stated fails: a table of four rows at font size 400. A page holds two rows; every
  continuation page gets the two header lines again and one row, three units with the
  accumulated height 1200, over the budget of 1027.
\<close>

theorem repeated_headers_overflow_budget:
  "paginateTrace (join nl [''|a|'', ''|-|'', ''|1|'', ''|2|'']) 400 1 =
     [([(Row 0 0, ''|a|''), (Row 0 1, ''|-|'')], 800),
      ([(HeaderRepeat 0, ''|a|''), (HeaderRepeat 0, ''|-|''), (Row 0 2, ''|1|'')], 1200),
      ([(HeaderRepeat 0, ''|a|''), (HeaderRepeat 0, ''|-|''), (Row 0 3, ''|2|'')], 1200)] \<and>
   paginateText (join nl [''|a|'', ''|-|'', ''|1|'', ''|2|'']) 400 1 =
     [join nl [''|a|'', ''|-|''], join nl [''|a|'', ''|-|'', ''|1|''],
      join nl [''|a|'', ''|-|'', ''|2|'']] \<and>
   AVAILABLE_HEIGHT = 1027"
  by code_simp

text \<open>
  A page that holds a spacer line can exceed the budget. With the default font size 22 and
  line height 1.6, one line and then a table of 28 rows: the fit test adds the height of
  the table to the height used and finds 1020.8, within the budget of 1027; the blank
  spacer line that is then put before the table is not part of the test. The one page
  returned holds 30 lines and has the accumulated height 1056.
\<close>

theorem spacer_overflows_budget:
  "paginateTrace (join nl (''a'' # replicate 28 ''|x|'')) 22 (8 / 5) =
     [((Line, ''a'') # (Spacer, []) # tagRows 1 (replicate 28 ''|x|''), 1056)] \<and>
   paginateText (join nl (''a'' # replicate 28 ''|x|'')) 22 (8 / 5) =
     [join nl (''a'' # [] # replicate 28 ''|x|'')] \<and>
   AVAILABLE_HEIGHT = 1027"
  by code_simp

section \<open>Page count and font size\<close>

lemma le_limit_mono: "le_limit n m \<Longrightarrow> k \<le> n \<Longrightarrow> le_limit k m"
  by (cases m) simp_all

lemma wrapLoop_mono:
  assumes "tighter m2 m1"
    and "length w1 < length w2 \<or> (length w1 = length w2 \<and> length c1 \<le> length c2)"
  shows "length (fst (wrapLoop m1 ws w1 c1)) \<le> length (fst (wrapLoop m2 ws w2 c2))"
  using assms(2)
proof (induction ws arbitrary: w1 c1 w2 c2)
  case Nil
  then show ?case by auto
next
  case (Cons word ws)
  let ?f1 = "le_limit (length c1 + 1 + length word) m1"
  let ?f2 = "le_limit (length c2 + 1 + length word) m2"
  have imp: "length c1 \<le> length c2 \<Longrightarrow> ?f2 \<Longrightarrow> ?f1"
    using assms(1) le_limit_mono [of "length c2 + 1 + length word" m2 "length c1 + 1 + length word"]
    by (auto simp: tighter_def)
  show ?case
  proof (cases ?f1; cases ?f2)
    assume a: ?f1 ?f2
    then show ?thesis
      using Cons.IH [of w1 w2 "c1 @ sp @ word" "c2 @ sp @ word"] Cons.prems by auto
  next
    assume a: ?f1 "\<not> ?f2"
    then show ?thesis
      using Cons.IH [of w1 "w2 @ [c2]" "c1 @ sp @ word" word] Cons.prems by auto
  next
    assume a: "\<not> ?f1" ?f2
    then have "\<not> length c1 \<le> length c2" using imp by blast
    then have "length w1 < length w2" using Cons.prems by auto
    then have "length (w1 @ [c1]) < length w2 \<or>
        (length (w1 @ [c1]) = length w2 \<and> length word \<le> length (c2 @ sp @ word))"
      by auto
    then show ?thesis
      using a Cons.IH [of "w1 @ [c1]" w2 word "c2 @ sp @ word"] by simp
  next
    assume a: "\<not> ?f1" "\<not> ?f2"
    then show ?thesis
      using Cons.IH [of "w1 @ [c1]" "w2 @ [c2]" word word] Cons.prems by auto
  qed
qed

lemma length_wrapText:
  "length (wrapText s m) =
     (if le_limit (length s) m then 1
      else Suc (length (fst (wrapLoop m (drop 1 (split CHR 0x20 s)) []
             (case split CHR 0x20 s of [] \<Rightarrow> [] | w # _ \<Rightarrow> w)))))"
  by (simp add: wrapText_def Let_def case_prod_unfold)

lemma wrapText_mono:
  assumes "tighter m2 m1"
  shows "length (wrapText s m1) \<le> length (wrapText s m2)"
proof (cases "le_limit (length s) m1")
  case True
  then show ?thesis
    by (simp add: length_wrapText)
next
  case False
  then have "\<not> le_limit (length s) m2"
    using assms by (auto simp: tighter_def)
  then show ?thesis
    using False wrapLoop_mono [OF assms, of "[]" "[]"]
    by (simp add: length_wrapText)
qed

lemma charsPerLine_tighter:
  assumes "0 < f1" and "f1 \<le> f2"
  shows "tighter (charsPerLine f2) (charsPerLine f1)"
proof -
  have "USABLE_WIDTH / avgCharWidth f2 \<le> USABLE_WIDTH / avgCharWidth f1"
    using assms by (simp add: avgCharWidth_def USABLE_WIDTH_def frac_le)
  then have "\<lfloor>USABLE_WIDTH / avgCharWidth f2\<rfloor> \<le> \<lfloor>USABLE_WIDTH / avgCharWidth f1\<rfloor>"
    by (rule floor_mono)
  then show ?thesis
    using assms by (auto simp: tighter_def charsPerLine_def avgCharWidth_def)
qed


lemma placeUnit_fields:
  "length (pages (placeUnit u h s)) =
     (if currentHeightUsed s + h > AVAILABLE_HEIGHT then Suc (length (pages s)) else length (pages s))"
  "currentHeightUsed (placeUnit u h s) =
     (if currentHeightUsed s + h > AVAILABLE_HEIGHT then h else currentHeightUsed s + h)"
  "currentPageLines (placeUnit u h s) \<noteq> []"
  by (simp_all add: placeUnit_def pushPage_def pushLines_def)

lemma behind_placeUnit:
  assumes "behind s1 s2" and "h1 \<le> h2" and "0 \<le> currentHeightUsed s2"
  shows "behind (placeUnit u1 h1 s1) (placeUnit u2 h2 s2)"
  using assms unfolding behind_def placeUnit_fields by (auto split: if_splits)

lemma behind_extra:
  assumes "behind s1 s2" and "0 \<le> h2"
  shows "behind s1 (placeUnit u2 h2 s2)"
  using assms unfolding behind_def placeUnit_fields by (auto split: if_splits)

lemma nonneg_placeUnit:
  "0 \<le> currentHeightUsed s \<Longrightarrow> 0 \<le> h \<Longrightarrow> 0 \<le> currentHeightUsed (placeUnit u h s)"
  by (simp add: placeUnit_fields)

lemma nonneg_placeVisualLines:
  "0 \<le> currentHeightUsed s \<Longrightarrow> 0 \<le> px \<Longrightarrow>
   0 \<le> currentHeightUsed (placeVisualLines px vs s)"
  by (induction vs arbitrary: s) (simp_all add: nonneg_placeUnit)

lemma behind_extras:
  "behind s1 s2 \<Longrightarrow> 0 \<le> px \<Longrightarrow> behind s1 (placeVisualLines px vs s2)"
  by (induction vs arbitrary: s2) (simp_all add: behind_extra)

lemma behind_placeVisualLines:
  assumes "behind s1 s2" and "0 \<le> currentHeightUsed s2" and "px1 \<le> px2" and "0 \<le> px2"
    and "length vs1 \<le> length vs2"
  shows "behind (placeVisualLines px1 vs1 s1) (placeVisualLines px2 vs2 s2)"
  using assms(1,2,5)
proof (induction vs1 arbitrary: vs2 s1 s2)
  case Nil
  then show ?case
    using assms(4) by (simp add: behind_extras)
next
  case (Cons v vs1)
  then obtain w ws where w: "vs2 = w # ws" by (cases vs2) auto
  have "behind (placeUnit v px1 s1) (placeUnit w px2 s2)"
    using Cons.prems(1) assms(3) Cons.prems(2) by (rule behind_placeUnit)
  moreover have "0 \<le> currentHeightUsed (placeUnit w px2 s2)"
    using Cons.prems(2) assms(4) by (rule nonneg_placeUnit)
  ultimately show ?case
    using Cons.IH [of "placeUnit v px1 s1" "placeUnit w px2 s2" ws] Cons.prems(3) w by simp
qed

lemma lines_placeVisualLines:
  "vs \<noteq> [] \<or> currentPageLines s \<noteq> [] \<Longrightarrow> currentPageLines (placeVisualLines px vs s) \<noteq> []"
  by (induction vs arbitrary: s) (simp_all add: placeUnit_fields)

lemma getLineHeight_mono:
  "px1 \<le> px2 \<Longrightarrow> getLineHeight px1 a b c \<le> getLineHeight px2 a b c"
  by (simp add: getLineHeight_def)

lemma getLineHeight_nonneg: "0 \<le> px \<Longrightarrow> 0 \<le> getLineHeight px a b c"
  by (simp add: getLineHeight_def)

lemma behind_processBlock:
  assumes "behind s1 s2" and "0 \<le> currentHeightUsed s2" and "px1 \<le> px2" and "0 \<le> px2"
    and "tighter m2 m1" and "type b \<noteq> Table" and "content b = [x]"
  shows "behind (processBlock px1 m1 s1 b) (processBlock px2 m2 s2 b) \<and>
         0 \<le> currentHeightUsed (processBlock px2 m2 s2 b) \<and>
         currentPageLines (processBlock px1 m1 s1 b) \<noteq> [] \<and>
         currentPageLines (processBlock px2 m2 s2 b) \<noteq> []"
proof (cases "type b")
  case Table
  then show ?thesis using assms(6) by simp
next
  case Hr
  then show ?thesis
    using assms
    by (simp add: processBlock_def behind_placeUnit nonneg_placeUnit placeUnit_fields(3)
        getLineHeight_mono getLineHeight_nonneg)
next
  case Text
  show ?thesis
  proof (cases "isHeader x")
    case True
    then show ?thesis
      using assms Text
      by (simp add: processBlock_def behind_placeUnit nonneg_placeUnit placeUnit_fields(3)
          getLineHeight_mono getLineHeight_nonneg)
  next
    case False
    have "behind (placeVisualLines px1 (wrapText x m1) s1) (placeVisualLines px2 (wrapText x m2) s2)"
      using assms(1-4) wrapText_mono [OF assms(5)] by (rule behind_placeVisualLines)
    then show ?thesis
      using assms Text False
      by (simp add: processBlock_def nonneg_placeVisualLines lines_placeVisualLines)
  qed
qed

lemma behind_foldl:
  assumes "px1 \<le> px2" and "0 \<le> px2" and "tighter m2 m1"
    and "\<forall>b \<in> set bs. type b \<noteq> Table \<and> (\<exists>x. content b = [x])"
    and "behind s1 s2" and "0 \<le> currentHeightUsed s2"
    and "bs \<noteq> [] \<or> (currentPageLines s1 \<noteq> [] \<and> currentPageLines s2 \<noteq> [])"
  shows "behind (foldl (processBlock px1 m1) s1 bs) (foldl (processBlock px2 m2) s2 bs) \<and>
         currentPageLines (foldl (processBlock px1 m1) s1 bs) \<noteq> [] \<and>
         currentPageLines (foldl (processBlock px2 m2) s2 bs) \<noteq> []"
  using assms(4-7)
proof (induction bs arbitrary: s1 s2)
  case Nil
  then show ?case by simp
next
  case (Cons b bs)
  obtain x where x: "type b \<noteq> Table" "content b = [x]"
    using Cons.prems(1) by auto
  note step = behind_processBlock [OF Cons.prems(2,3) assms(1-3) x]
  show ?case
    using Cons.IH [of "processBlock px1 m1 s1 b" "processBlock px2 m2 s2 b"] step Cons.prems(1)
    by simp
qed

lemma content_in_lines:
  assumes "b \<in> set (segment ls)" and "x \<in> set (content b)"
  shows "x \<in> set ls"
proof -
  have "x \<in> set (concat (map content (segment ls)))"
    using assms by auto
  then show ?thesis by (simp only: concat_segment)
qed

lemma segment_no_tables:
  assumes "\<forall>x \<in> set ls. \<not> is_table_row x"
  shows "\<forall>b \<in> set (segment ls). type b \<noteq> Table \<and> (\<exists>x. content b = [x])"
proof
  fix b
  assume b: "b \<in> set (segment ls)"
  note c = segment_content [OF b]
  have "type b \<noteq> Table"
  proof
    assume t: "type b = Table"
    then obtain y ys where y: "content b = y # ys"
      using c by (cases "content b") auto
    then have "is_table_row y" using c t by simp
    moreover have "y \<in> set ls"
      using content_in_lines [OF b] y by simp
    ultimately show False using assms by blast
  qed
  then show "type b \<noteq> Table \<and> (\<exists>x. content b = [x])"
    using c by blast
qed

lemma segment_not_Nil: "ls \<noteq> [] \<Longrightarrow> segment ls \<noteq> []"
  by (cases ls) simp_all

text \<open>
  C7, as the code has it: for a text none of whose lines is a table row, a positive line
  height and positive font sizes, a larger font size never gives fewer pages. A larger
  font wraps every plain line into at least as many visual lines and makes every unit at
  least as high, and without tables the pages are filled unit by unit.
\<close>

theorem page_count_monotone_without_tables:
  assumes "\<forall>x \<in> set (split CHR 0x0A text). \<not> is_table_row x"
    and "0 < fontSize1" and "fontSize1 \<le> fontSize2" and "0 < lineHeight"
  shows "length (paginateText text fontSize1 lineHeight)
           \<le> length (paginateText text fontSize2 lineHeight)"
proof (cases "text = []")
  case True
  then show ?thesis by (simp add: paginateText_def)
next
  case False
  let ?bs = "segment (split CHR 0x0A text)"
  let ?init = "\<lparr>pages = [], currentPageLines = [], currentHeightUsed = 0\<rparr>"
  let ?s1 = "foldl (processBlock (fontSize1 * lineHeight) (charsPerLine fontSize1)) ?init ?bs"
  let ?s2 = "foldl (processBlock (fontSize2 * lineHeight) (charsPerLine fontSize2)) ?init ?bs"
  have px: "fontSize1 * lineHeight \<le> fontSize2 * lineHeight" "0 \<le> fontSize2 * lineHeight"
    using assms(2-4) by simp_all
  have "?bs \<noteq> []"
    by (simp add: segment_not_Nil)
  then have r: "behind ?s1 ?s2 \<and> currentPageLines ?s1 \<noteq> [] \<and> currentPageLines ?s2 \<noteq> []"
    using behind_foldl [OF px charsPerLine_tighter [OF assms(2,3)] segment_no_tables [OF assms(1)],
        of ?init ?init]
    by (simp add: behind_def)
  then have "length (pages ?s1) \<le> length (pages ?s2)"
    by (auto simp: behind_def)
  then show ?thesis
    using False r by (simp add: paginateText_def Let_def)
qed


theorem page_count_monotone_without_tables_witness:
  "\<not> is_table_row ''a'' \<and> \<not> is_table_row ''b b'' \<and> \<not> is_table_row ''c'' \<and>
   paginateText (join nl [''a'', ''b b'', ''c'']) 300 1 = [join nl [''a'', ''b b'', ''c'']] \<and>
   paginateText (join nl [''a'', ''b b'', ''c'']) 600 1 = [''a'', ''b'', ''b'', ''c''] \<and>
   length (paginateText (join nl [''a'', ''b b'', ''c'']) 300 1)
     \<le> length (paginateText (join nl [''a'', ''b b'', ''c'']) 600 1)"
proof -
  have r: "\<not> is_table_row ''a''" "\<not> is_table_row ''b b''" "\<not> is_table_row ''c''"
    by (simp_all add: is_table_row_def trim_def is_space_def startsWith_def)
  have s: "split CHR 0x0A (join nl [''a'', ''b b'', ''c'']) = [''a'', ''b b'', ''c'']"
    by (simp add: nl_def)
  have h: "\<forall>x \<in> set (split CHR 0x0A (join nl [''a'', ''b b'', ''c''])). \<not> is_table_row x"
    unfolding s using r by simp
  have e: "paginateText (join nl [''a'', ''b b'', ''c'']) 300 1 = [join nl [''a'', ''b b'', ''c'']]"
      "paginateText (join nl [''a'', ''b b'', ''c'']) 600 1 = [''a'', ''b'', ''b'', ''c'']"
    by code_simp+
  have "length (paginateText (join nl [''a'', ''b b'', ''c'']) 300 1)
      \<le> length (paginateText (join nl [''a'', ''b b'', ''c'']) 600 1)"
    by (rule page_count_monotone_without_tables [OF h]) simp_all
  then show ?thesis
    using r e by simp
qed

text \<open>
  C7 as stated fails: a line and a table of five rows, line height 1. At font size 210 the
  line is not wrapped, the first page ends after the separator row, and each of the two
  continuation pages spends two of its four lines on the repeated headers: three pages. At
  font size 250 the line is wrapped into two, the first page ends after the label row, and
  the second page starts with the separator row without repeated headers and takes the
  rest: two pages.
\<close>

theorem larger_font_fewer_pages:
  "paginateText (join nl [''aaa bbb'', ''|a|'', ''|-|'', ''|1|'', ''|2|'', ''|3|'']) 210 1 =
     [join nl [''aaa bbb'', [], ''|a|'', ''|-|''],
      join nl [''|a|'', ''|-|'', ''|1|'', ''|2|''],
      join nl [''|a|'', ''|-|'', ''|3|'']] \<and>
   paginateText (join nl [''aaa bbb'', ''|a|'', ''|-|'', ''|1|'', ''|2|'', ''|3|'']) 250 1 =
     [join nl [''aaa'', ''bbb'', [], ''|a|''],
      join nl [''|-|'', ''|1|'', ''|2|'', ''|3|'']]"
  by code_simp

section \<open>Paginating a single page again\<close>















lemma unitsOf_not_Nil [simp]: "unitsOf px m x \<noteq> []"
  by (simp add: unitsOf_def)

















section \<open>Empty pages before oversized units\<close>

lemma pages_pushLines [simp]: "pages (pushLines ls h st) = pages st"
  by (simp add: pushLines_def)

lemma pages_placeUnit: "\<exists>more. pages (placeUnit u h st) = pages st @ more"
  by (simp add: placeUnit_def pushPage_def)

lemma pages_placeVisualLines: "\<exists>more. pages (placeVisualLines px vs st) = pages st @ more"
proof (induction vs arbitrary: st)
  case Nil
  show ?case by simp
next
  case (Cons v vs)
  obtain m1 where "pages (placeUnit v px st) = pages st @ m1"
    using pages_placeUnit by blast
  moreover obtain m2 where
    "pages (placeVisualLines px vs (placeUnit v px st)) = pages (placeUnit v px st) @ m2"
    using Cons.IH by blast
  ultimately show ?case by simp
qed

lemma pages_tableRows: "\<exists>more. pages (tableRows px hs r rows st) = pages st @ more"
proof (induction rows arbitrary: st r)
  case Nil
  show ?case by simp
next
  case (Cons row rows)
  let ?st1 = "pushLines [row] px
     (if currentHeightUsed st + px > AVAILABLE_HEIGHT then
        (let st' = pushPage st
         in if \<not> r < 2 \<and> length hs = 2
            then pushLines hs (of_nat (length hs) * px) st' else st')
      else st)"
  have "\<exists>m1. pages ?st1 = pages st @ m1"
    by (simp add: Let_def pushPage_def)
  then obtain m1 where m1: "pages ?st1 = pages st @ m1" ..
  obtain m2 where m2: "pages (tableRows px hs (r + 1) rows ?st1) = pages ?st1 @ m2"
    using Cons.IH by blast
  have "tableRows px hs r (row # rows) st = tableRows px hs (r + 1) rows ?st1"
    by (simp add: Let_def)
  then show ?case using m1 m2 by simp
qed

lemma pages_restOfBlock: "\<exists>more. pages (restOfBlock px m b st) = pages st @ more"
  by (cases "type b") (simp_all add: restOfBlock_def pages_tableRows pages_placeVisualLines)

lemma oversized_first_unit:
  assumes "currentPageLines st = []" and "currentHeightUsed st = 0" and "content b \<noteq> []"
    and "AVAILABLE_HEIGHT < unitHeight px b"
  shows "processBlock px m st b =
           restOfBlock px m b
             \<lparr>pages = pages st @ [[]], currentPageLines = [unitLine m b],
              currentHeightUsed = unitHeight px b\<rparr>"
proof (cases "type b")
  case Text
  obtain line rest where c: "content b = line # rest"
    using assms(3) by (cases "content b") simp_all
  show ?thesis
  proof (cases "isHeader line")
    case True
    then show ?thesis
      using assms Text c
      by (simp add: processBlock_def restOfBlock_def unitLine_def unitHeight_def placeUnit_def
          pushPage_def pushLines_def)
  next
    case False
    obtain v vs where w: "wrapText line m = v # vs"
      by (cases "wrapText line m") simp_all
    show ?thesis
      using assms Text c False w
      by (simp add: processBlock_def restOfBlock_def unitLine_def unitHeight_def placeUnit_def
          pushPage_def pushLines_def)
  qed
next
  case Table
  obtain line rest where c: "content b = line # rest"
    using assms(3) by (cases "content b") simp_all
  have px: "AVAILABLE_HEIGHT < px"
    using assms(4) Table by (simp add: unitHeight_def)
  have "0 \<le> px" using px by (simp add: AVAILABLE_HEIGHT_def)
  then have "px \<le> (1 + of_nat (length rest)) * px"
    by (simp add: mult_le_cancel_right1)
  then have big: "AVAILABLE_HEIGHT < (1 + of_nat (length rest)) * px"
    using px by linarith
  show ?thesis
    using assms Table c px big
    by (simp add: processBlock_def restOfBlock_def unitLine_def unitHeight_def getLineHeight_def
        pushPage_def pushLines_def Let_def not_le)
next
  case Hr
  obtain line rest where c: "content b = line # rest"
    using assms(3) by (cases "content b") simp_all
  show ?thesis
    using assms Hr c
    by (simp add: processBlock_def restOfBlock_def unitLine_def unitHeight_def placeUnit_def
        pushPage_def pushLines_def)
qed

text \<open>
  C10. Whenever the current page has no lines yet (and so no height) and the first unit
  of the next block (the first table row, the rule, the heading, or the first visual line)
  is higher than the whole budget, the block is processed like this: \<open>pushPage\<close>
  appends the empty string to the pages, the unit becomes the only line of the new current
  page, and the rest of the block follows. So the first page added is the empty string;
  the witness shows such a page in the output of \<open>paginateText\<close> for a non-empty text.
\<close>

theorem empty_page_before_oversized_unit:
  assumes "currentPageLines st = []" and "currentHeightUsed st = 0" and "content b \<noteq> []"
    and "AVAILABLE_HEIGHT < unitHeight px b"
  shows "processBlock px m st b =
           restOfBlock px m b
             \<lparr>pages = pages st @ [[]], currentPageLines = [unitLine m b],
              currentHeightUsed = unitHeight px b\<rparr> \<and>
         take (Suc (length (pages st))) (pages (processBlock px m st b)) = pages st @ [[]]"
proof -
  let ?st1 = "\<lparr>pages = pages st @ [[]], currentPageLines = [unitLine m b],
                currentHeightUsed = unitHeight px b\<rparr>"
  have e: "processBlock px m st b = restOfBlock px m b ?st1"
    using assms by (rule oversized_first_unit)
  obtain more where "pages (restOfBlock px m b ?st1) = pages ?st1 @ more"
    using pages_restOfBlock by blast
  then show ?thesis using e by simp
qed

theorem empty_page_before_oversized_unit_witness:
  "processBlock 700 (charsPerLine 700)
     \<lparr>pages = [], currentPageLines = [], currentHeightUsed = 0\<rparr>
     \<lparr>type = Text, content = [''# Hi'']\<rparr>
   = \<lparr>pages = [[]], currentPageLines = [''# Hi''], currentHeightUsed = 1050\<rparr> \<and>
   AVAILABLE_HEIGHT < 1050 \<and>
   paginateText ''# Hi'' 700 1 = [[], ''# Hi'']"
proof -
  have "paginateText ''# Hi'' 700 1 = [[], ''# Hi'']"
    by code_simp
  then show ?thesis
    using empty_page_before_oversized_unit
      [of "\<lparr>pages = [], currentPageLines = [], currentHeightUsed = 0\<rparr>"
          "\<lparr>type = Text, content = [''# Hi'']\<rparr>" 700 "charsPerLine 700"]
    by (simp add: unitHeight_def unitLine_def restOfBlock_def isHeader_def is_space_def
        getLineHeight_def AVAILABLE_HEIGHT_def)
qed

section \<open>Totality\<close>

lemma tableScan_returns:
  "tableScan rawLines j acc =
     Some (acc @ takeWhile is_table_row (drop j rawLines),
           j + length (takeWhile is_table_row (drop j rawLines)))"
proof (induction "length rawLines - j" arbitrary: j acc)
  case 0
  then show ?case by (subst tableScan.simps) simp
next
  case (Suc n)
  then have j: "j < length rawLines" by simp
  then have d: "drop j rawLines = rawLines ! j # drop (Suc j) rawLines"
    by (simp add: Cons_nth_drop_Suc)
  show ?case
  proof (cases "is_table_row (rawLines ! j)")
    case True
    have "n = length rawLines - (j + 1)" using Suc.hyps(2) by simp
    then have "tableScan rawLines (j + 1) (acc @ [rawLines ! j]) =
        Some ((acc @ [rawLines ! j]) @ takeWhile is_table_row (drop (j + 1) rawLines),
              (j + 1) + length (takeWhile is_table_row (drop (j + 1) rawLines)))"
      by (rule Suc.hyps(1))
    then show ?thesis
      using True j d by (subst tableScan.simps) simp
  next
    case False
    then show ?thesis
      using j d by (subst tableScan.simps) simp
  qed
qed

lemma segmentLoop_returns:
  "segmentLoop rawLines i blocks = Some (blocks @ segment (drop i rawLines))"
proof (induction "length rawLines - i" arbitrary: i blocks rule: less_induct)
  case less
  show ?case
  proof (cases "i < length rawLines")
    case False
    then show ?thesis by (subst segmentLoop.simps) simp
  next
    case True
    then have d: "drop i rawLines = rawLines ! i # drop (Suc i) rawLines"
      by (simp add: Cons_nth_drop_Suc)
    show ?thesis
    proof (cases "is_table_row (rawLines ! i)")
      case row: True
      let ?k = "length (takeWhile is_table_row (drop i rawLines))"
      have k: "0 < ?k" "i + ?k \<le> length rawLines"
        using row d length_takeWhile_le [of is_table_row "drop i rawLines"] True by simp_all
      have "segmentLoop rawLines (i + ?k)
              (blocks @ [\<lparr>type = Table, content = takeWhile is_table_row (drop i rawLines)\<rparr>]) =
            Some ((blocks @ [\<lparr>type = Table, content = takeWhile is_table_row (drop i rawLines)\<rparr>])
                  @ segment (drop (i + ?k) rawLines))"
        by (rule less) (use k True in linarith)
      moreover have "drop (i + ?k) rawLines = dropWhile is_table_row (drop (Suc i) rawLines)"
      proof -
        let ?n = "length (takeWhile is_table_row (drop (Suc i) rawLines))"
        have "?k = Suc ?n" using row d by simp
        then have "drop (i + ?k) rawLines = drop ?n (drop (Suc i) rawLines)"
          by (simp add: add.commute)
        then show ?thesis by (simp only: dropWhile_eq_drop)
      qed
      moreover have "takeWhile is_table_row (drop i rawLines) =
          rawLines ! i # takeWhile is_table_row (drop (Suc i) rawLines)"
        using row d by simp
      ultimately show ?thesis
        using True row d by (subst segmentLoop.simps) (simp add: tableScan_returns)
    next
      case False
      have "segmentLoop rawLines (i + 1) bs = Some (bs @ segment (drop (i + 1) rawLines))" for bs
        by (rule less) (use True in linarith)
      then show ?thesis
        using True False d by (subst segmentLoop.simps) simp
    qed
  qed
qed

lemma wrapFor_returns:
  "wrapFor m words k wrapped cur = Some (wrapLoop m (drop k words) wrapped cur)"
proof (induction "length words - k" arbitrary: k wrapped cur)
  case 0
  then show ?case by (subst wrapFor.simps) simp
next
  case (Suc n)
  then have k: "k < length words" by simp
  then have d: "drop k words = words ! k # drop (Suc k) words"
    by (simp add: Cons_nth_drop_Suc)
  have n: "n = length words - (k + 1)" using Suc.hyps(2) by simp
  show ?case
  proof (cases "le_limit (length cur + 1 + length (words ! k)) m")
    case True
    have "wrapFor m words (k + 1) wrapped (cur @ sp @ words ! k) =
        Some (wrapLoop m (drop (k + 1) words) wrapped (cur @ sp @ words ! k))"
      using n by (rule Suc.hyps(1))
    then show ?thesis
      using True k d by (subst wrapFor.simps) simp
  next
    case False
    have "wrapFor m words (k + 1) (wrapped @ [cur]) (words ! k) =
        Some (wrapLoop m (drop (k + 1) words) (wrapped @ [cur]) (words ! k))"
      using n by (rule Suc.hyps(1))
    then show ?thesis
      using False k d by (subst wrapFor.simps) simp
  qed
qed

lemma wrapTextLoops_returns: "wrapTextLoops str m = Some (wrapText str m)"
  by (simp add: wrapTextLoops_def wrapText_def wrapFor_returns Let_def case_prod_unfold)

text \<open>
  C9 as stated fails at \<open>fontSize = 0\<close>: the divisor of the \<open>charsPerLine\<close> division
  is then zero, the division is performed all the same, and its value is \<open>Infinity\<close>,
  not a finite number.
\<close>

theorem zero_fontSize_divides_by_zero:
  "avgCharWidth 0 = 0 \<and> charsPerLine 0 = Infinity"
  by (simp add: avgCharWidth_def charsPerLine_def)

text \<open>
  C9, as the code has it. For every text, font size and line height, zero and negative
  ones included, the loops of \<open>paginateText\<close> end and a page sequence with at least one
  page is returned. The inner \<open>while\<close> loop of the segmentation stops at the end of
  \<open>rawLines\<close> at the latest and the outer one moves its index forward in every round, so
  the segmentation returns its blocks; the loop of \<open>wrapText\<close> returns for every line
  and every \<open>max\<close>; no loop condition looks at a number. The division that computes
  \<open>charsPerLine\<close> is not guarded: at font size 0 (the positive zero) its divisor is 0
  and its value is \<open>Infinity\<close>.
\<close>

theorem paginateText_terminates:
  "segmentLoop (split CHR 0x0A text) 0 [] = Some (segment (split CHR 0x0A text)) \<and>
   wrapTextLoops str max' = Some (wrapText str max') \<and>
   paginateTextLoops text fontSize lineHeight = Some (paginateText text fontSize lineHeight) \<and>
   paginateText text fontSize lineHeight \<noteq> [] \<and>
   avgCharWidth 0 = 0 \<and> charsPerLine 0 = Infinity"
  by (simp add: paginateTextLoops_def paginateText_def segmentLoop_returns wrapTextLoops_returns
      Let_def avgCharWidth_def charsPerLine_def)

section \<open>Non-empty output\<close>

text \<open>
  C4. The empty document gives exactly one page, the empty string, and every call
  returns at least one page.
\<close>

theorem paginateText_nonempty:
  "paginateText [] fontSize lineHeight = [[]] \<and> 1 \<le> length (paginateText text f l)"
  by (simp add: paginateText_def Let_def Suc_le_eq)

end
